theory Spec2Isabelle
  imports Complex_Main "HOL-Library.Multiset"
begin

section \<open>Constants of the game\<close>

type_synonym cell = "int \<times> int"

definition TILE :: int where "TILE = 40"
definition COLS :: int where "COLS = 15"
definition ROWS :: int where "ROWS = 15"
definition HUD_H :: int where "HUD_H = 50"
definition NUM_PIECES :: nat where "NUM_PIECES = 5"
definition FLASH_DURATION :: int where "FLASH_DURATION = 75"
definition PIECE_DURATION :: int where "PIECE_DURATION = 120"
definition START_POS :: cell where "START_POS = (7, 7)"

section \<open>Breadth-first reachability\<close>

text \<open>
  The bounds test of \<open>_bfs_reachable\<close>:
  \<open>0 <= nb[0] < COLS and 0 <= nb[1] < ROWS\<close>.
\<close>

definition in_grid :: "cell \<Rightarrow> bool" where
  "in_grid nb \<longleftrightarrow> 0 \<le> fst nb \<and> fst nb < COLS \<and> 0 \<le> snd nb \<and> snd nb < ROWS"

text \<open>The four offsets, in the order the inner \<open>for\<close> loop walks them.\<close>

definition DIRS :: "(int \<times> int) list" where
  "DIRS = [(1, 0), (-1, 0), (0, 1), (0, -1)]"

text \<open>
  One pass of the inner \<open>for dx, dy in ...\<close> loop for the dequeued cell \<open>c\<close>.
  The goal test comes first and leaves the whole function with \<open>True\<close>
  (\<open>Found\<close>); otherwise the neighbour is enqueued when it is in bounds, not
  blocked and not yet vis.  The vis set and the queue are updated
  between the offsets, as in the source.
\<close>

datatype scan = Found | Continue "cell set" "cell list"

fun scan_dirs :: "cell \<Rightarrow> cell set \<Rightarrow> cell \<Rightarrow> (int \<times> int) list \<Rightarrow> cell set \<Rightarrow> cell list \<Rightarrow> scan" where
  "scan_dirs goal blocked c [] vis q = Continue vis q"
| "scan_dirs goal blocked c (d # ds) vis q =
    (let nb = (fst c + fst d, snd c + snd d) in
     if nb = goal then Found
     else if in_grid nb \<and> nb \<notin> blocked \<and> nb \<notin> vis
       then scan_dirs goal blocked c ds (insert nb vis) (q @ [nb])
       else scan_dirs goal blocked c ds vis q)"

definition grid :: "cell set" where
  "grid = {0..<COLS} \<times> {0..<ROWS}"

lemma finite_grid: "finite grid"
  by (simp add: grid_def)

lemma in_grid_iff: "in_grid c \<longleftrightarrow> c \<in> grid"
  by (cases c) (auto simp: in_grid_def grid_def)

lemma scan_dirs_measure:
  "scan_dirs goal blocked c ds vis q = Continue v' q' \<Longrightarrow>
   2 * card (grid - v') + length q' \<le> 2 * card (grid - vis) + length q"
proof (induction ds arbitrary: vis q)
  case Nil
  then show ?case by simp
next
  case (Cons d ds)
  let ?nb = "(fst c + fst d, snd c + snd d)"
  show ?case
  proof (cases "in_grid ?nb \<and> ?nb \<notin> blocked \<and> ?nb \<notin> vis")
    case True
    with Cons.prems have "scan_dirs goal blocked c ds (insert ?nb vis) (q @ [?nb]) = Continue v' q'"
      by (simp add: Let_def split: if_splits)
    from Cons.IH[OF this]
    have le: "2 * card (grid - v') + length q' \<le> 2 * card (grid - insert ?nb vis) + length (q @ [?nb])" .
    from True have mem: "?nb \<in> grid - vis" by (simp add: in_grid_iff)
    have "grid - insert ?nb vis = (grid - vis) - {?nb}" by auto
    moreover have "finite (grid - vis)" using finite_grid by simp
    ultimately have "card (grid - insert ?nb vis) = card (grid - vis) - 1"
      using mem by simp
    moreover have "card (grid - vis) > 0"
      using mem \<open>finite (grid - vis)\<close> card_gt_0_iff by blast
    ultimately show ?thesis using le by simp
  next
    case False
    with Cons.prems have "scan_dirs goal blocked c ds vis q = Continue v' q'"
      by (simp add: Let_def split: if_splits)
    from Cons.IH[OF this] show ?thesis .
  qed
qed

text \<open>
  The \<open>while q\<close> loop: \<open>q.popleft()\<close> takes the head of the queue; an empty
  queue ends the search with \<open>False\<close>.
\<close>

function bfs_loop :: "cell \<Rightarrow> cell set \<Rightarrow> cell set \<Rightarrow> cell list \<Rightarrow> bool" where
  "bfs_loop goal blocked vis [] = False"
| "bfs_loop goal blocked vis (c # q) =
    (case scan_dirs goal blocked c DIRS vis q of
       Found \<Rightarrow> True
     | Continue vis' q' \<Rightarrow> bfs_loop goal blocked vis' q')"
  by pat_completeness auto
termination
proof (relation "measure (\<lambda>(goal, blocked, vis, q). 2 * card (grid - vis) + length q)")
  show "wf (measure (\<lambda>(goal, blocked, vis, q). 2 * card (grid - vis) + length q))"
    by simp
next
  fix goal blocked vis c q x y
  assume "scan_dirs goal blocked c DIRS vis q = Continue x y"
  from scan_dirs_measure[OF this]
  show "((goal, blocked, x, y), (goal, blocked, vis, c # q))
        \<in> measure (\<lambda>(goal, blocked, vis, q). 2 * card (grid - vis) + length q)"
    by simp
qed

text \<open>
  \<open>_bfs_reachable\<close>: the early return for \<open>start == goal\<close>, then the loop
  started with \<open>vis = {start}\<close> and the queue \<open>[start]\<close>.
\<close>

definition bfs_reachable :: "cell \<Rightarrow> cell \<Rightarrow> cell set \<Rightarrow> bool" where
  "bfs_reachable start goal blocked =
    (if start = goal then True else bfs_loop goal blocked {start} [start])"


section \<open>Item and pitfall placement\<close>

text \<open>
  \<open>all_cells\<close> of \<open>place_items\<close> is the set of the 225 grid cells.  The source
  builds \<open>list(all_cells - forbidden)\<close> and shuffles it in place with
  \<open>random.shuffle\<close>.  The listing below fixes one enumeration of the set
  difference; the two shuffles are parameters of the model (\<open>sh1\<close>,
  \<open>sh2\<close>), each mapping a list to the order the random source leaves it in.
\<close>

definition all_cells :: "cell list" where
  "all_cells = concat (map (\<lambda>c. map (\<lambda>r. (c, r)) [0..ROWS - 1]) [0..COLS - 1])"

definition cells_outside :: "cell set \<Rightarrow> cell list" where
  "cells_outside forbidden = filter (\<lambda>c. c \<notin> forbidden) all_cells"

text \<open>
  The first loop of \<open>place_items\<close>, over the shuffled pool: it stops once
  \<open>NUM_PIECES\<close> pieces are placed and accepts a cell that is reachable from
  the start with nothing blocked, extending \<open>pieces\<close> and \<open>forbidden\<close>.
\<close>

fun place_pieces :: "cell list \<Rightarrow> cell list \<Rightarrow> cell set \<Rightarrow> cell list \<times> cell set" where
  "place_pieces [] pieces forbidden = (pieces, forbidden)"
| "place_pieces (cell # pool) pieces forbidden =
    (if length pieces \<ge> NUM_PIECES then (pieces, forbidden)
     else if bfs_reachable START_POS cell {}
       then place_pieces pool (pieces @ [cell]) (insert cell forbidden)
       else place_pieces pool pieces forbidden)"

text \<open>
  The second loop, over the shuffled candidates: it stops once
  \<open>len(pitfalls) >= num_pitfalls\<close> and accepts a cell when every piece is
  still found by the search with \<open>pitfalls | {cell}\<close> blocked.
\<close>

fun place_pitfalls :: "int \<Rightarrow> cell list \<Rightarrow> cell list \<Rightarrow> cell set \<Rightarrow> cell set" where
  "place_pitfalls num_pitfalls pieces [] pitfalls = pitfalls"
| "place_pitfalls num_pitfalls pieces (cell # candidates) pitfalls =
    (if int (card pitfalls) \<ge> num_pitfalls then pitfalls
     else let trial = pitfalls \<union> {cell} in
       if list_all (\<lambda>p. bfs_reachable START_POS p trial) pieces
       then place_pitfalls num_pitfalls pieces candidates (insert cell pitfalls)
       else place_pitfalls num_pitfalls pieces candidates pitfalls)"

definition place_items :: "(cell list \<Rightarrow> cell list) \<Rightarrow> (cell list \<Rightarrow> cell list) \<Rightarrow> int \<Rightarrow> cell list \<times> cell set" where
  "place_items sh1 sh2 num_pitfalls =
    (let forbidden = {START_POS};
         pool = sh1 (cells_outside forbidden);
         (pieces, forbidden') = place_pieces pool [] forbidden;
         candidates = sh2 (cells_outside forbidden');
         pitfalls = place_pitfalls num_pitfalls pieces candidates {}
     in (pieces, pitfalls))"

text \<open>
  What the model asks of a shuffle: the result is a permutation of its
  argument.
\<close>

definition is_shuffle :: "(cell list \<Rightarrow> cell list) \<Rightarrow> bool" where
  "is_shuffle sh \<longleftrightarrow> (\<forall>xs. mset (sh xs) = mset xs)"


section \<open>Victory particles\<close>

text \<open>
  The dataclass \<open>Star\<close>.  Python floats are idealised as reals; the fields
  carry the prefix \<open>star_\<close>.  A \<open>draw\<close> holds what \<open>make_stars\<close> takes
  from the random source for one star: the random angle \<open>a\<close> through the
  values of \<open>math.cos(a)\<close> and \<open>math.sin(a)\<close>, the speed \<open>sp\<close>, the
  decay, the size and the colour.
\<close>

record Star =
  star_x :: real
  star_y :: real
  star_vx :: real
  star_vy :: real
  star_life :: real
  star_decay :: real
  star_size :: int
  star_color :: "int \<times> int \<times> int"

record draw =
  draw_cos_a :: real
  draw_sin_a :: real
  draw_sp :: real
  draw_decay :: real
  draw_size :: int
  draw_color :: "int \<times> int \<times> int"

definition make_stars :: "(nat \<Rightarrow> draw) \<Rightarrow> int \<Rightarrow> int \<Rightarrow> nat \<Rightarrow> Star list" where
  "make_stars draws cx cy cnt =
    map (\<lambda>i. \<lparr> star_x = of_int cx, star_y = of_int cy,
                star_vx = draw_cos_a (draws i) * draw_sp (draws i),
                star_vy = draw_sin_a (draws i) * draw_sp (draws i),
                star_life = 1, star_decay = draw_decay (draws i),
                star_size = draw_size (draws i), star_color = draw_color (draws i) \<rparr>)
        [0..<cnt]"

section \<open>Game state\<close>

text \<open>
  The dataclass \<open>GameState\<close>, field by field.  The sets of a state are
  separate objects (each built by its own \<open>set()\<close> or by \<open>place_items\<close>),
  so the record holds them by value.
\<close>

record GameState =
  player_x :: int
  player_y :: int
  player_dir :: int
  visited :: "cell set"
  piece_positions :: "cell list"
  collected_pieces :: "cell set"
  pitfall_positions :: "cell set"
  revealed_pitfalls :: "cell set"
  death_count :: int
  num_pitfalls :: int
  screen_state :: string
  flash_timer :: int
  piece_timer :: int
  piece_origin :: cell
  win_angle :: real
  win_stars :: "Star list"
  star_spawn_timer :: int

text \<open>
  The random source one call may consult: the two shuffles of
  \<open>place_items\<close> and the draws of \<open>make_stars\<close>.
\<close>

record rng =
  shuffle_pool :: "cell list \<Rightarrow> cell list"
  shuffle_candidates :: "cell list \<Rightarrow> cell list"
  star_draws :: "nat \<Rightarrow> draw"

text \<open>
  The key codes \<open>handle_keydown\<close> compares with are pygame's, pairwise
  distinct integers; every other code is \<open>K_OTHER\<close>.
\<close>

datatype key = K_UP | K_DOWN | K_LEFT | K_RIGHT | K_RETURN | K_SPACE | K_OTHER int

definition new_game :: "rng \<Rightarrow> int \<Rightarrow> GameState" where
  "new_game r n =
    (let (pieces, pitfalls) = place_items (shuffle_pool r) (shuffle_candidates r) n in
     \<lparr> player_x = fst START_POS, player_y = snd START_POS, player_dir = 1,
       visited = {START_POS},
       piece_positions = pieces, collected_pieces = {},
       pitfall_positions = pitfalls, revealed_pitfalls = {},
       death_count = 0, num_pitfalls = n,
       screen_state = ''playing'',
       flash_timer = 0, piece_timer = 0, piece_origin = (0, 0),
       win_angle = 0, win_stars = [], star_spawn_timer = 0 \<rparr>)"

definition reset_game :: "rng \<Rightarrow> GameState \<Rightarrow> GameState" where
  "reset_game r state =
    (let (pieces, pitfalls) =
           place_items (shuffle_pool r) (shuffle_candidates r) (num_pitfalls state) in
     state\<lparr> player_x := fst START_POS, player_y := snd START_POS, player_dir := 1,
            visited := {START_POS},
            piece_positions := pieces,
            collected_pieces := {},
            pitfall_positions := pitfalls,
            revealed_pitfalls := {},
            death_count := 0,
            screen_state := ''playing'',
            flash_timer := 0, piece_timer := 0, piece_origin := (0, 0),
            win_angle := 0, win_stars := [], star_spawn_timer := 0 \<rparr>)"

section \<open>Game logic\<close>

definition handle_pitfall :: "GameState \<Rightarrow> GameState" where
  "handle_pitfall state =
    state\<lparr> death_count := death_count state + 1,
           revealed_pitfalls := insert (player_x state, player_y state) (revealed_pitfalls state),
           player_x := fst START_POS, player_y := snd START_POS,
           visited := insert START_POS (visited state),
           screen_state := ''flash'',
           flash_timer := FLASH_DURATION \<rparr>"

text \<open>
  The offset and facing that the \<open>if/elif\<close> chain of \<open>handle_keydown\<close>
  gives a key; a key that is no arrow leaves \<open>dx = dy = 0\<close> and the facing
  as it is.
\<close>

fun key_move :: "key \<Rightarrow> (int \<times> int \<times> int) option" where
  "key_move K_UP = Some (0, -1, 0)"
| "key_move K_DOWN = Some (0, 1, 1)"
| "key_move K_LEFT = Some (-1, 0, 2)"
| "key_move K_RIGHT = Some (1, 0, 3)"
| "key_move _ = None"

definition handle_keydown :: "rng \<Rightarrow> key \<Rightarrow> GameState \<Rightarrow> GameState" where
  "handle_keydown r k state =
    (if screen_state state \<in> {''win'', ''flash'', ''piece''} then
       (if screen_state state = ''win'' \<and> k \<in> {K_RETURN, K_SPACE}
        then reset_game r state else state)
     else
       (case key_move k of
          None \<Rightarrow> state
        | Some (dx, dy, dir) \<Rightarrow>
           (let state1 = state\<lparr> player_dir := dir \<rparr>;
                new_x = player_x state1 + dx;
                new_y = player_y state1 + dy
            in if \<not> (0 \<le> new_x \<and> new_x < COLS \<and> 0 \<le> new_y \<and> new_y < ROWS) then state1
               else
                (let pos = (new_x, new_y);
                     state2 = state1\<lparr> player_x := new_x, player_y := new_y,
                                     visited := insert pos (visited state1) \<rparr>
                 in if pos \<in> pitfall_positions state2 then handle_pitfall state2
                    else if pos \<in> set (piece_positions state2) \<and> pos \<notin> collected_pieces state2 then
                      (let state3 = state2\<lparr> collected_pieces := insert pos (collected_pieces state2),
                                             piece_origin := pos,
                                             piece_timer := PIECE_DURATION,
                                             screen_state := ''piece'' \<rparr>
                       in if card (collected_pieces state3) = NUM_PIECES
                          then state3\<lparr> win_stars := make_stars (star_draws r)
                                                     (new_x * TILE + TILE div 2)
                                                     (HUD_H + new_y * TILE + TILE div 2) 40,
                                         win_angle := 0,
                                         screen_state := ''win'' \<rparr>
                          else state3)
                    else state2))))"

text \<open>
  \<open>update_stars\<close>: every star moves by its velocity (the old \<open>vy\<close>), gains
  0.06 of downward speed and loses its decay of life; the stars whose life is
  used up are dropped.
\<close>

definition update_stars :: "Star list \<Rightarrow> Star list" where
  "update_stars stars =
    filter (\<lambda>s. star_life s > 0)
      (map (\<lambda>s. s\<lparr> star_x := star_x s + star_vx s,
                    star_y := star_y s + star_vy s,
                    star_vy := star_vy s + 6 / 100,
                    star_life := star_life s - star_decay s \<rparr>) stars)"

definition WIN_W :: int where "WIN_W = COLS * TILE"
definition WIN_H :: int where "WIN_H = ROWS * TILE + HUD_H"

text \<open>
  The per-frame update of the main loop (the block under \<open>Updates\<close> in
  \<open>main\<close>), for a game in progress.
\<close>

definition tick :: "rng \<Rightarrow> GameState \<Rightarrow> GameState" where
  "tick r gs =
    (if screen_state gs = ''flash'' then
       (let gs1 = gs\<lparr> flash_timer := flash_timer gs - 1 \<rparr>
        in if flash_timer gs1 \<le> 0 then gs1\<lparr> screen_state := ''playing'' \<rparr> else gs1)
     else if screen_state gs = ''piece'' then
       (let gs1 = gs\<lparr> piece_timer := piece_timer gs - 1 \<rparr>
        in if piece_timer gs1 \<le> 0
           then gs1\<lparr> screen_state := ''playing'', piece_origin := (0, 0) \<rparr> else gs1)
     else if screen_state gs = ''win'' then
       (let gs1 = gs\<lparr> win_angle := win_angle gs + 3 / 100,
                       win_stars := update_stars (win_stars gs),
                       star_spawn_timer := star_spawn_timer gs - 1 \<rparr>
        in if star_spawn_timer gs1 \<le> 0
           then gs1\<lparr> win_stars := win_stars gs1 @
                          make_stars (star_draws r) (WIN_W div 2)
                            (HUD_H + (WIN_H - HUD_H) div 2) 8,
                       star_spawn_timer := 30 \<rparr>
           else gs1)
     else gs)"

text \<open>
  What the main loop feeds a game in progress: key presses and frames, each
  with the random source its call consults.
\<close>

datatype event = KeyDown rng key | Frame rng

fun step :: "event \<Rightarrow> GameState \<Rightarrow> GameState" where
  "step (KeyDown r k) state = handle_keydown r k state"
| "step (Frame r) state = tick r state"

fun run :: "event list \<Rightarrow> GameState \<Rightarrow> GameState" where
  "run [] state = state"
| "run (ev # evs) state = run evs (step ev state)"

text \<open>
  An event that starts a new map: the confirm key on the win screen.  A
  session is a run without such an event.
\<close>

fun is_reset :: "event \<Rightarrow> GameState \<Rightarrow> bool" where
  "is_reset (KeyDown r k) state \<longleftrightarrow> screen_state state = ''win'' \<and> k \<in> {K_RETURN, K_SPACE}"
| "is_reset (Frame r) state \<longleftrightarrow> False"

fun session :: "event list \<Rightarrow> GameState \<Rightarrow> bool" where
  "session [] state \<longleftrightarrow> True"
| "session (ev # evs) state \<longleftrightarrow> \<not> is_reset ev state \<and> session evs (step ev state)"

section \<open>Reachability on the grid, stated without the search\<close>

text \<open>
  The four neighbours of a cell, and the cells a walk from \<open>start\<close> visits
  when every step goes to a neighbour that is in bounds and not blocked.
\<close>

definition neighbours :: "cell \<Rightarrow> cell list" where
  "neighbours c = map (\<lambda>d. (fst c + fst d, snd c + snd d)) DIRS"

inductive explored :: "cell \<Rightarrow> cell set \<Rightarrow> cell \<Rightarrow> bool" for start blocked where
  explored_start: "explored start blocked start"
| explored_step: "explored start blocked c \<Longrightarrow> nb \<in> set (neighbours c) \<Longrightarrow>
     in_grid nb \<Longrightarrow> nb \<notin> blocked \<Longrightarrow> explored start blocked nb"

definition offs :: "cell \<Rightarrow> (int \<times> int) list \<Rightarrow> cell set" where
  "offs c ds = (\<lambda>d. (fst c + fst d, snd c + snd d)) ` set ds"

text \<open>
  A cell is settled in \<open>V\<close> when the goal is none of its neighbours and all
  its admissible neighbours are in \<open>V\<close>.
\<close>

definition settled :: "cell \<Rightarrow> cell set \<Rightarrow> cell set \<Rightarrow> cell \<Rightarrow> bool" where
  "settled g B V c \<longleftrightarrow> g \<notin> set (neighbours c) \<and>
     (\<forall>nb \<in> set (neighbours c). in_grid nb \<and> nb \<notin> B \<longrightarrow> nb \<in> V)"

text \<open>
  The part of the data model's invariant that concerns \<open>visited\<close>: it holds
  the start cell and the cell the player stands on.
\<close>

definition visited_ok :: "GameState \<Rightarrow> bool" where
  "visited_ok s \<longleftrightarrow> START_POS \<in> visited s \<and> (player_x s, player_y s) \<in> visited s"

section \<open>Example values\<close>

text \<open>
  A random source and a state of a game in progress, for the concrete
  instances below: the player stands on the start cell after one fall into
  the pit at (8, 7); four of the five pieces are collected and the last one
  lies at (7, 6).
\<close>

definition demo_rng :: rng where
  "demo_rng = \<lparr> shuffle_pool = rev, shuffle_candidates = rev,
                star_draws = (\<lambda>i. \<lparr> draw_cos_a = 1, draw_sin_a = 0, draw_sp = 2,
                                      draw_decay = 1 / 100, draw_size = 3,
                                      draw_color = (255, 230, 60) \<rparr>) \<rparr>"

definition demo_state :: GameState where
  "demo_state =
    \<lparr> player_x = 7, player_y = 7, player_dir = 3,
      visited = {(7, 7), (8, 7)},
      piece_positions = [(7, 6), (0, 0), (3, 9), (12, 2), (14, 14)],
      collected_pieces = {(0, 0), (3, 9), (12, 2), (14, 14)},
      pitfall_positions = {(8, 7), (5, 5)}, revealed_pitfalls = {(8, 7)},
      death_count = 1, num_pitfalls = 2,
      screen_state = ''playing'',
      flash_timer = 0, piece_timer = 0, piece_origin = (0, 0),
      win_angle = 0, win_stars = [], star_spawn_timer = 0 \<rparr>"

section \<open>Correctness of the search\<close>

lemma scan_found:
  "scan_dirs g B c ds v q = Found \<Longrightarrow> g \<in> offs c ds"
  by (induction ds arbitrary: v q) (auto simp: offs_def Let_def split: if_splits)

lemma scan_continue:
  "scan_dirs g B c ds v q = Continue v' q' \<Longrightarrow>
     g \<notin> offs c ds \<and> v \<subseteq> v' \<and>
     (\<exists>new. q' = q @ new \<and> v' = v \<union> set new \<and> set new \<subseteq> {nb \<in> offs c ds. in_grid nb \<and> nb \<notin> B}) \<and>
     (\<forall>nb \<in> offs c ds. in_grid nb \<and> nb \<notin> B \<longrightarrow> nb \<in> v')"
proof (induction ds arbitrary: v q)
  case Nil
  then show ?case by (simp add: offs_def)
next
  case (Cons d ds)
  let ?nb = "(fst c + fst d, snd c + snd d)"
  have o: "offs c (d # ds) = insert ?nb (offs c ds)" by (simp add: offs_def)
  from Cons.prems have ng: "?nb \<noteq> g" by (auto simp: Let_def split: if_splits)
  show ?case
  proof (cases "in_grid ?nb \<and> ?nb \<notin> B \<and> ?nb \<notin> v")
    case True
    with Cons.prems ng have "scan_dirs g B c ds (insert ?nb v) (q @ [?nb]) = Continue v' q'"
      by (simp add: Let_def)
    from Cons.IH[OF this] obtain new where
      a: "g \<notin> offs c ds" "insert ?nb v \<subseteq> v'" "q' = (q @ [?nb]) @ new" "v' = insert ?nb v \<union> set new"
         "set new \<subseteq> {nb \<in> offs c ds. in_grid nb \<and> nb \<notin> B}"
         "\<forall>nb \<in> offs c ds. in_grid nb \<and> nb \<notin> B \<longrightarrow> nb \<in> v'" by blast
    have "q' = q @ (?nb # new) \<and> v' = v \<union> set (?nb # new) \<and>
          set (?nb # new) \<subseteq> {nb \<in> offs c (d # ds). in_grid nb \<and> nb \<notin> B}"
      using a True o by auto
    then have "\<exists>new. q' = q @ new \<and> v' = v \<union> set new \<and> set new \<subseteq> {nb \<in> offs c (d # ds). in_grid nb \<and> nb \<notin> B}"
      by blast
    moreover have "g \<notin> offs c (d # ds)" using a ng o by auto
    moreover have "v \<subseteq> v'" using a by auto
    moreover have "\<forall>nb \<in> offs c (d # ds). in_grid nb \<and> nb \<notin> B \<longrightarrow> nb \<in> v'" using a o by auto
    ultimately show ?thesis by blast
  next
    case False
    with Cons.prems ng have "scan_dirs g B c ds v q = Continue v' q'"
      by (simp add: Let_def split: if_splits)
    from Cons.IH[OF this] obtain new where
      a: "g \<notin> offs c ds" "v \<subseteq> v'" "q' = q @ new" "v' = v \<union> set new"
         "set new \<subseteq> {nb \<in> offs c ds. in_grid nb \<and> nb \<notin> B}"
         "\<forall>nb \<in> offs c ds. in_grid nb \<and> nb \<notin> B \<longrightarrow> nb \<in> v'" by blast
    have "q' = q @ new \<and> v' = v \<union> set new \<and> set new \<subseteq> {nb \<in> offs c (d # ds). in_grid nb \<and> nb \<notin> B}"
      using a o by auto
    then have "\<exists>new. q' = q @ new \<and> v' = v \<union> set new \<and> set new \<subseteq> {nb \<in> offs c (d # ds). in_grid nb \<and> nb \<notin> B}"
      by blast
    moreover have "g \<notin> offs c (d # ds)" using a ng o by auto
    moreover have "\<forall>nb \<in> offs c (d # ds). in_grid nb \<and> nb \<notin> B \<longrightarrow> nb \<in> v'" using a o False by auto
    ultimately show ?thesis using a(2) by blast
  qed
qed

lemma offs_neighbours: "offs c DIRS = set (neighbours c)"
  by (simp add: offs_def neighbours_def)


lemma bfs_loop_sound:
  "bfs_loop g B v q \<Longrightarrow> (\<forall>c \<in> set q. explored s B c) \<Longrightarrow>
     \<exists>c. explored s B c \<and> g \<in> set (neighbours c)"
proof (induction g B v q rule: bfs_loop.induct)
  case (1 goal blocked vis)
  then show ?case by simp
next
  case (2 goal blocked vis c q)
  show ?case
  proof (cases "scan_dirs goal blocked c DIRS vis q")
    case Found
    from scan_found[OF this] have "goal \<in> set (neighbours c)" by (simp add: offs_neighbours)
    moreover from "2.prems" have "explored s blocked c" by simp
    ultimately show ?thesis by blast
  next
    case (Continue v' q')
    from scan_continue[OF this] obtain new where
      n: "q' = q @ new" "set new \<subseteq> {nb \<in> set (neighbours c). in_grid nb \<and> nb \<notin> blocked}"
      unfolding offs_neighbours by blast
    from "2.prems" have ec: "explored s blocked c" and eq: "\<forall>x \<in> set q. explored s blocked x" by simp_all
    have "\<forall>x \<in> set q'. explored s blocked x"
    proof
      fix x assume "x \<in> set q'"
      then consider "x \<in> set q" | "x \<in> set new" using n by auto
      then show "explored s blocked x"
      proof cases
        case 1 then show ?thesis using eq by simp
      next
        case 2
        with n have "x \<in> set (neighbours c)" "in_grid x" "x \<notin> blocked" by auto
        with ec show ?thesis by (rule explored_step)
      qed
    qed
    moreover from "2.prems" Continue have "bfs_loop goal blocked v' q'" by simp
    ultimately show ?thesis using "2.IH"[OF Continue] by blast
  qed
qed

lemma settled_mono: "settled g B V c \<Longrightarrow> V \<subseteq> V' \<Longrightarrow> settled g B V' c"
  by (auto simp: settled_def)

lemma bfs_loop_complete:
  "\<not> bfs_loop g B v q \<Longrightarrow> set q \<subseteq> v \<Longrightarrow> (\<forall>c \<in> v - set q. settled g B v c) \<Longrightarrow>
     \<exists>V. v \<subseteq> V \<and> (\<forall>c \<in> V. settled g B V c)"
proof (induction g B v q rule: bfs_loop.induct)
  case (1 goal blocked vis)
  then show ?case by auto
next
  case (2 goal blocked vis c q)
  show ?case
  proof (cases "scan_dirs goal blocked c DIRS vis q")
    case Found
    with "2.prems"(1) show ?thesis by simp
  next
    case (Continue v' q')
    from scan_continue[OF this] obtain new where
      n: "goal \<notin> set (neighbours c)" "vis \<subseteq> v'" "q' = q @ new" "v' = vis \<union> set new"
         "\<forall>nb \<in> set (neighbours c). in_grid nb \<and> nb \<notin> blocked \<longrightarrow> nb \<in> v'"
      unfolding offs_neighbours by blast
    have sc: "settled goal blocked v' c" using n by (simp add: settled_def)
    have sub: "set q' \<subseteq> v'" using n "2.prems"(2) by auto
    have "\<forall>x \<in> v' - set q'. settled goal blocked v' x"
    proof
      fix x assume x: "x \<in> v' - set q'"
      show "settled goal blocked v' x"
      proof (cases "x = c")
        case True then show ?thesis using sc by simp
      next
        case False
        with x n have "x \<in> vis - set (c # q)" by auto
        with "2.prems"(3) have "settled goal blocked vis x" by blast
        then show ?thesis using n(2) by (rule settled_mono)
      qed
    qed
    moreover from "2.prems"(1) Continue have "\<not> bfs_loop goal blocked v' q'" by simp
    ultimately obtain V where "v' \<subseteq> V" "\<forall>c \<in> V. settled goal blocked V c"
      using "2.IH"[OF Continue] sub by blast
    then show ?thesis using n(2) by blast
  qed
qed

lemma explored_in_closed:
  "explored s B c \<Longrightarrow> s \<in> V \<Longrightarrow> (\<forall>c \<in> V. settled g B V c) \<Longrightarrow> c \<in> V"
  by (induction rule: explored.induct) (auto simp: settled_def)

lemma bfs_reachable_iff:
  "bfs_reachable s g B \<longleftrightarrow> s = g \<or> (\<exists>c. explored s B c \<and> g \<in> set (neighbours c))"
proof (cases "s = g")
  case True
  then show ?thesis by (simp add: bfs_reachable_def)
next
  case False
  show ?thesis
  proof (cases "bfs_loop g B {s} [s]")
    case True
    have "\<forall>c \<in> set [s]. explored s B c" by (simp add: explored_start)
    from bfs_loop_sound[OF True this] show ?thesis using True False by (simp add: bfs_reachable_def)
  next
    case nl: False
    have "\<exists>V. {s} \<subseteq> V \<and> (\<forall>c \<in> V. settled g B V c)"
      by (rule bfs_loop_complete[OF nl]) simp_all
    then obtain V where V: "s \<in> V" "\<forall>c \<in> V. settled g B V c" by auto
    have "\<not> (\<exists>c. explored s B c \<and> g \<in> set (neighbours c))"
    proof
      assume "\<exists>c. explored s B c \<and> g \<in> set (neighbours c)"
      then obtain c where c: "explored s B c" "g \<in> set (neighbours c)" by blast
      from explored_in_closed[OF c(1) V] have "c \<in> V" .
      with V(2) have "settled g B V c" by blast
      with c(2) show False by (simp add: settled_def)
    qed
    then show ?thesis using nl False by (simp add: bfs_reachable_def)
  qed
qed

section \<open>Properties of the placement loops\<close>

lemma set_all_cells: "set all_cells = grid"
  by (auto simp: all_cells_def grid_def)

lemma distinct_all_cells: "distinct all_cells"
proof -
  have r: "[0..ROWS - 1] = 0 # [1..ROWS - 1]"
    by (simp add: ROWS_def upto_rec1)
  have "inj_on (\<lambda>c. map (\<lambda>r. (c, r)) [0..ROWS - 1]) (set [0..COLS - 1])"
    unfolding r by (simp add: inj_on_def)
  then have "distinct (map (\<lambda>c. map (\<lambda>r. (c, r)) [0..ROWS - 1]) [0..COLS - 1])"
    by (simp add: distinct_map)
  then show ?thesis
    unfolding all_cells_def
    by (rule distinct_concat) (auto simp: distinct_map inj_on_def)
qed

lemma length_all_cells: "length all_cells = 225"
  by (simp add: all_cells_def COLS_def ROWS_def length_concat comp_def sum_list_triv)

lemma START_in_grid: "START_POS \<in> grid"
  by (simp add: START_POS_def grid_def COLS_def ROWS_def)

lemma explored_east:
  "explored s {} (x, y) \<Longrightarrow> in_grid (x, y) \<Longrightarrow> in_grid (x + int n, y) \<Longrightarrow>
     explored s {} (x + int n, y)"
proof (induction n)
  case 0
  then show ?case by simp
next
  case (Suc n)
  from Suc.prems have g: "in_grid (x + int n, y)" by (simp add: in_grid_def)
  from Suc.IH[OF Suc.prems(1,2) g] have e: "explored s {} (x + int n, y)" .
  have "(x + int (Suc n), y) \<in> set (neighbours (x + int n, y))"
    by (simp add: neighbours_def DIRS_def)
  from explored_step[OF e this Suc.prems(3)] show ?case by simp
qed

lemma explored_west:
  "explored s {} (x, y) \<Longrightarrow> in_grid (x, y) \<Longrightarrow> in_grid (x - int n, y) \<Longrightarrow>
     explored s {} (x - int n, y)"
proof (induction n)
  case 0
  then show ?case by simp
next
  case (Suc n)
  from Suc.prems have g: "in_grid (x - int n, y)" by (simp add: in_grid_def)
  from Suc.IH[OF Suc.prems(1,2) g] have e: "explored s {} (x - int n, y)" .
  have "(x - int (Suc n), y) \<in> set (neighbours (x - int n, y))"
    by (simp add: neighbours_def DIRS_def)
  from explored_step[OF e this Suc.prems(3)] show ?case by simp
qed

lemma explored_south:
  "explored s {} (x, y) \<Longrightarrow> in_grid (x, y) \<Longrightarrow> in_grid (x, y + int n) \<Longrightarrow>
     explored s {} (x, y + int n)"
proof (induction n)
  case 0
  then show ?case by simp
next
  case (Suc n)
  from Suc.prems have g: "in_grid (x, y + int n)" by (simp add: in_grid_def)
  from Suc.IH[OF Suc.prems(1,2) g] have e: "explored s {} (x, y + int n)" .
  have "(x, y + int (Suc n)) \<in> set (neighbours (x, y + int n))"
    by (simp add: neighbours_def DIRS_def)
  from explored_step[OF e this Suc.prems(3)] show ?case by simp
qed

lemma explored_north:
  "explored s {} (x, y) \<Longrightarrow> in_grid (x, y) \<Longrightarrow> in_grid (x, y - int n) \<Longrightarrow>
     explored s {} (x, y - int n)"
proof (induction n)
  case 0
  then show ?case by simp
next
  case (Suc n)
  from Suc.prems have g: "in_grid (x, y - int n)" by (simp add: in_grid_def)
  from Suc.IH[OF Suc.prems(1,2) g] have e: "explored s {} (x, y - int n)" .
  have "(x, y - int (Suc n)) \<in> set (neighbours (x, y - int n))"
    by (simp add: neighbours_def DIRS_def)
  from explored_step[OF e this Suc.prems(3)] show ?case by simp
qed

lemma explored_row:
  assumes "explored s {} (x, y)" "in_grid (x, y)" "in_grid (a, y)"
  shows "explored s {} (a, y)"
proof (cases "x \<le> a")
  case True
  then have "a = x + int (nat (a - x))" by simp
  with explored_east[OF assms(1,2), of "nat (a - x)"] assms(3) show ?thesis by simp
next
  case False
  then have "a = x - int (nat (x - a))" by simp
  with explored_west[OF assms(1,2), of "nat (x - a)"] assms(3) show ?thesis by simp
qed

lemma explored_col:
  assumes "explored s {} (x, y)" "in_grid (x, y)" "in_grid (x, b)"
  shows "explored s {} (x, b)"
proof (cases "y \<le> b")
  case True
  then have "b = y + int (nat (b - y))" by simp
  with explored_south[OF assms(1,2), of "nat (b - y)"] assms(3) show ?thesis by simp
next
  case False
  then have "b = y - int (nat (y - b))" by simp
  with explored_north[OF assms(1,2), of "nat (y - b)"] assms(3) show ?thesis by simp
qed

lemma explored_open_grid:
  assumes "in_grid c"
  shows "explored START_POS {} c"
proof -
  obtain a b where c: "c = (a, b)" by (cases c)
  have s: "in_grid (7, 7)" by (simp add: in_grid_def COLS_def ROWS_def)
  have e0: "explored START_POS {} (7, 7)" unfolding START_POS_def by (rule explored_start)
  have g1: "in_grid (a, 7)" using assms c by (simp add: in_grid_def COLS_def ROWS_def)
  from explored_row[OF e0 s g1] have e1: "explored START_POS {} (a, 7)" .
  from explored_col[OF e1 g1] assms c show ?thesis by simp
qed

lemma bfs_reachable_open_grid:
  assumes "in_grid c"
  shows "bfs_reachable START_POS c {}"
proof -
  obtain a b where c: "c = (a, b)" by (cases c)
  define c' where "c' = (if 0 < a then (a - 1, b) else (a + 1, b))"
  have g: "in_grid c'" using assms c by (auto simp: c'_def in_grid_def COLS_def)
  have n: "c \<in> set (neighbours c')" by (auto simp: c c'_def neighbours_def DIRS_def)
  from explored_open_grid[OF g] n show ?thesis
    using bfs_reachable_iff[of START_POS c "{}"] by blast
qed


lemma bfs_reachable_explored:
  assumes "bfs_reachable s p B" "in_grid p" "p \<notin> B"
  shows "explored s B p"
proof (cases "s = p")
  case True
  then show ?thesis by (simp add: explored_start)
next
  case False
  with assms(1) bfs_reachable_iff[of s p B]
  obtain c where "explored s B c" "p \<in> set (neighbours c)" by blast
  then show ?thesis using assms(2,3) by (rule explored_step)
qed

lemma place_pieces_shape:
  "place_pieces pool pieces forb = (ps, fb) \<Longrightarrow>
     \<exists>new. ps = pieces @ new \<and> set new \<subseteq> set pool \<and> fb = forb \<union> set new \<and>
           (distinct pool \<longrightarrow> distinct new)"
proof (induction pool arbitrary: pieces forb)
  case Nil
  then show ?case by simp
next
  case (Cons cell pool)
  show ?case
  proof (cases "length pieces \<ge> NUM_PIECES")
    case True
    with Cons.prems show ?thesis by simp
  next
    case full: False
    show ?thesis
    proof (cases "bfs_reachable START_POS cell {}")
      case True
      with full Cons.prems
      have "place_pieces pool (pieces @ [cell]) (insert cell forb) = (ps, fb)" by simp
      from Cons.IH[OF this] obtain new where
        n: "ps = (pieces @ [cell]) @ new" "set new \<subseteq> set pool" "fb = insert cell forb \<union> set new"
           "distinct pool \<longrightarrow> distinct new" by blast
      have "ps = pieces @ (cell # new) \<and> set (cell # new) \<subseteq> set (cell # pool) \<and>
            fb = forb \<union> set (cell # new) \<and> (distinct (cell # pool) \<longrightarrow> distinct (cell # new))"
        using n by auto
      then show ?thesis by blast
    next
      case False
      with full Cons.prems have "place_pieces pool pieces forb = (ps, fb)" by simp
      from Cons.IH[OF this] obtain new where
        n: "ps = pieces @ new" "set new \<subseteq> set pool" "fb = forb \<union> set new"
           "distinct pool \<longrightarrow> distinct new" by blast
      have "ps = pieces @ new \<and> set new \<subseteq> set (cell # pool) \<and>
            fb = forb \<union> set new \<and> (distinct (cell # pool) \<longrightarrow> distinct new)"
        using n by auto
      then show ?thesis by blast
    qed
  qed
qed

lemma place_pieces_length:
  "\<forall>c \<in> set pool. bfs_reachable START_POS c {} \<Longrightarrow> length pieces \<le> NUM_PIECES \<Longrightarrow>
     length (fst (place_pieces pool pieces forb)) = min NUM_PIECES (length pieces + length pool)"
  by (induction pool arbitrary: pieces forb) auto

lemma place_pieces_reach:
  "list_all (\<lambda>p. bfs_reachable START_POS p {}) pieces \<Longrightarrow>
     list_all (\<lambda>p. bfs_reachable START_POS p {}) (fst (place_pieces pool pieces forb))"
  by (induction pool arbitrary: pieces forb) auto

lemma place_pitfalls_subset:
  "place_pitfalls n pieces cands pits \<subseteq> pits \<union> set cands"
  by (induction cands arbitrary: pits) (auto simp: Let_def)

lemma place_pitfalls_finite:
  "finite pits \<Longrightarrow> finite (place_pitfalls n pieces cands pits)"
  by (induction cands arbitrary: pits) (auto simp: Let_def)

lemma place_pitfalls_card:
  "finite pits \<Longrightarrow> int (card pits) \<le> n \<Longrightarrow>
     int (card (place_pitfalls n pieces cands pits)) \<le> n"
proof (induction cands arbitrary: pits)
  case Nil
  then show ?case by simp
next
  case (Cons cell cands)
  show ?case
  proof (cases "int (card pits) \<ge> n")
    case True
    with Cons.prems show ?thesis by simp
  next
    case False
    have "card (insert cell pits) \<le> Suc (card pits)"
      using Cons.prems(1) by (simp add: card_insert_if)
    with False have "int (card (insert cell pits)) \<le> n" by simp
    with Cons.IH[of "insert cell pits"] Cons.IH[of pits] Cons.prems False
    show ?thesis by (simp add: Let_def)
  qed
qed

lemma place_pitfalls_reach:
  "list_all (\<lambda>p. bfs_reachable START_POS p pits) pieces \<Longrightarrow>
     list_all (\<lambda>p. bfs_reachable START_POS p (place_pitfalls n pieces cands pits)) pieces"
  by (induction cands arbitrary: pits) (auto simp: Let_def)

lemma set_cells_outside: "set (cells_outside forb) = grid - forb"
  by (auto simp: cells_outside_def set_all_cells)

lemma distinct_cells_outside: "distinct (cells_outside forb)"
  by (simp add: cells_outside_def distinct_all_cells)

lemma length_cells_outside_start: "length (cells_outside {START_POS}) = 224"
proof -
  have "length (cells_outside {START_POS}) = card (grid - {START_POS})"
    using distinct_card[OF distinct_cells_outside, of "{START_POS}"]
    by (simp add: set_cells_outside)
  also have "\<dots> = card grid - 1"
    using START_in_grid finite_grid by simp
  also have "card grid = 225"
    using distinct_card[OF distinct_all_cells] by (simp add: set_all_cells length_all_cells)
  finally show ?thesis by simp
qed

lemma is_shuffle_set: "is_shuffle sh \<Longrightarrow> set (sh xs) = set xs"
  unfolding is_shuffle_def by (metis mset_eq_setD)

lemma is_shuffle_length: "is_shuffle sh \<Longrightarrow> length (sh xs) = length xs"
  unfolding is_shuffle_def by (metis mset_eq_length)

lemma is_shuffle_distinct: "is_shuffle sh \<Longrightarrow> distinct (sh xs) = distinct xs"
  unfolding is_shuffle_def by (metis mset_eq_imp_distinct_iff)

text \<open>What \<open>place_items\<close> returns, with the intermediate values named.\<close>

lemma place_items_unfold:
  assumes "place_items sh1 sh2 n = (pieces, pitfalls)"
  shows "\<exists>forb. place_pieces (sh1 (cells_outside {START_POS})) [] {START_POS} = (pieces, forb) \<and>
           pitfalls = place_pitfalls n pieces (sh2 (cells_outside forb)) {}"
  using assms by (auto simp: place_items_def Let_def split: prod.splits)


lemma place_items_facts:
  assumes sh1: "is_shuffle sh1" and sh2: "is_shuffle sh2"
    and pi: "place_items sh1 sh2 n = (pieces, pitfalls)"
  shows "set pieces \<subseteq> grid - {START_POS}"
    and "pitfalls \<subseteq> grid - ({START_POS} \<union> set pieces)"
    and "list_all (\<lambda>p. bfs_reachable START_POS p pitfalls) pieces"
    and "distinct pieces"
    and "length pieces = 5"
    and "finite pitfalls"
    and "0 \<le> n \<Longrightarrow> int (card pitfalls) \<le> n"
proof -
  let ?pool = "sh1 (cells_outside {START_POS})"
  from place_items_unfold[OF pi] obtain forb where
    pp: "place_pieces ?pool [] {START_POS} = (pieces, forb)" and
    pf: "pitfalls = place_pitfalls n pieces (sh2 (cells_outside forb)) {}" by blast
  have pool_set: "set ?pool = grid - {START_POS}"
    using is_shuffle_set[OF sh1] by (simp add: set_cells_outside)
  have pool_distinct: "distinct ?pool"
    using is_shuffle_distinct[OF sh1] by (simp add: distinct_cells_outside)
  have pool_length: "length ?pool = 224"
    using is_shuffle_length[OF sh1] by (simp add: length_cells_outside_start)
  from place_pieces_shape[OF pp] pool_distinct
  have shape: "set pieces \<subseteq> set ?pool" "forb = {START_POS} \<union> set pieces" "distinct pieces"
    by auto
  show a: "set pieces \<subseteq> grid - {START_POS}" using shape(1) pool_set by simp
  show "distinct pieces" by (rule shape(3))
  have "set (sh2 (cells_outside forb)) = grid - forb"
    using is_shuffle_set[OF sh2] by (simp add: set_cells_outside)
  with place_pitfalls_subset[of n pieces "sh2 (cells_outside forb)" "{}"] pf shape(2)
  show "pitfalls \<subseteq> grid - ({START_POS} \<union> set pieces)" by simp
  have "list_all (\<lambda>p. bfs_reachable START_POS p {}) (fst (place_pieces ?pool [] {START_POS}))"
    by (rule place_pieces_reach) simp
  then have "list_all (\<lambda>p. bfs_reachable START_POS p {}) pieces" using pp by simp
  from place_pitfalls_reach[OF this] pf
  show "list_all (\<lambda>p. bfs_reachable START_POS p pitfalls) pieces" by simp
  have "\<forall>c \<in> set ?pool. bfs_reachable START_POS c {}"
    using pool_set bfs_reachable_open_grid by (simp add: in_grid_iff)
  from place_pieces_length[OF this, of "[]" "{START_POS}"] pp pool_length
  show "length pieces = 5" by (simp add: NUM_PIECES_def)
  show "finite pitfalls" unfolding pf by (rule place_pitfalls_finite) simp
  show "int (card pitfalls) \<le> n" if "0 \<le> n"
    unfolding pf using that by (intro place_pitfalls_card) simp_all
qed

lemma is_shuffle_rev: "is_shuffle rev"
  by (simp add: is_shuffle_def)

section \<open>Properties of the state machine\<close>

lemma pitfall_move:
  assumes "screen_state s = ''playing''"
    and "key_move k = Some (dx, dy, dir)"
    and "in_grid (player_x s + dx, player_y s + dy)"
    and "(player_x s + dx, player_y s + dy) \<in> pitfall_positions s"
  shows "handle_keydown r k s =
           handle_pitfall (s\<lparr> player_dir := dir, player_x := player_x s + dx,
                              player_y := player_y s + dy,
                              visited := insert (player_x s + dx, player_y s + dy) (visited s) \<rparr>)"
  using assms by (simp add: handle_keydown_def in_grid_def Let_def)

lemma handle_pitfall_visited:
  "visited (handle_pitfall s) = insert START_POS (visited s)"
  "(player_x (handle_pitfall s), player_y (handle_pitfall s)) = START_POS"
  by (simp_all add: handle_pitfall_def)

lemma tick_frame:
  "visited (tick r s) = visited s"
  "player_x (tick r s) = player_x s"
  "player_y (tick r s) = player_y s"
  by (simp_all add: tick_def Let_def)

lemma reset_game_visited_ok: "visited_ok (reset_game r s)"
  by (simp add: reset_game_def visited_ok_def split: prod.splits)

lemma new_game_visited_ok: "visited_ok (new_game r n)"
  by (simp add: new_game_def visited_ok_def split: prod.splits)

text \<open>The moves of \<open>handle_keydown\<close> in the playing phase, case by case.\<close>

lemma handle_keydown_visited:
  assumes "\<not> is_reset (KeyDown r k) s"
  shows "visited s \<subseteq> visited (handle_keydown r k s)"
proof (cases "screen_state s \<in> {''win'', ''flash'', ''piece''}")
  case True
  with assms show ?thesis by (auto simp: handle_keydown_def)
next
  case False
  show ?thesis
  proof (cases "key_move k")
    case None
    with False show ?thesis by (simp add: handle_keydown_def)
  next
    case (Some m)
    obtain dx dy dir where m: "m = (dx, dy, dir)" by (cases m)
    show ?thesis
      using False Some m
      by (auto simp: handle_keydown_def Let_def handle_pitfall_def)
  qed
qed

lemma handle_keydown_visited_ok:
  assumes "visited_ok s"
  shows "visited_ok (handle_keydown r k s)"
proof (cases "screen_state s \<in> {''win'', ''flash'', ''piece''}")
  case True
  with assms show ?thesis
    by (auto simp: handle_keydown_def reset_game_visited_ok)
next
  case False
  show ?thesis
  proof (cases "key_move k")
    case None
    with False assms show ?thesis by (simp add: handle_keydown_def)
  next
    case (Some m)
    obtain dx dy dir where m: "m = (dx, dy, dir)" by (cases m)
    show ?thesis
      using False Some m assms
      by (auto simp: handle_keydown_def Let_def handle_pitfall_def visited_ok_def)
  qed
qed

lemma step_visited: "\<not> is_reset ev s \<Longrightarrow> visited s \<subseteq> visited (step ev s)"
  by (cases ev) (simp_all add: handle_keydown_visited tick_frame)

lemma step_visited_ok: "visited_ok s \<Longrightarrow> visited_ok (step ev s)"
  by (cases ev) (simp_all add: handle_keydown_visited_ok, simp add: visited_ok_def tick_frame)

lemma run_visited: "session evs s \<Longrightarrow> visited s \<subseteq> visited (run evs s)"
proof (induction evs arbitrary: s)
  case Nil
  then show ?case by simp
next
  case (Cons ev evs)
  then have "visited s \<subseteq> visited (step ev s)" "visited (step ev s) \<subseteq> visited (run evs (step ev s))"
    by (simp_all add: step_visited)
  then show ?case by simp
qed

lemma run_visited_ok: "visited_ok s \<Longrightarrow> visited_ok (run evs s)"
  by (induction evs arbitrary: s) (simp_all add: step_visited_ok)

section \<open>The claims about the search\<close>

text \<open>
  C2.  \<open>_bfs_reachable\<close> answers \<open>True\<close> whenever start and goal are the same
  cell, whatever the blocked set.  For a goal other than the start it answers
  \<open>True\<close> exactly when the goal is a neighbour of a cell that the search
  visits, that is, of a cell reached from the start through neighbours that
  are in bounds and not blocked; otherwise the search runs out of cells and
  the answer is \<open>False\<close>.  The function is total, so it always answers.
\<close>

theorem C2_bfs_reachable_correct:
  "bfs_reachable s s B \<and>
   (s \<noteq> g \<longrightarrow> (bfs_reachable s g B \<longleftrightarrow> (\<exists>c. explored s B c \<and> g \<in> set (neighbours c))))"
  using bfs_reachable_iff[of s s B] bfs_reachable_iff[of s g B] by auto

theorem C2_bfs_reachable_correct_witness:
  "bfs_reachable (7, 7) (7, 7) {(7, 7)} \<and>
   \<not> (\<exists>c. explored (0, 0) {(0, 1), (1, 0)} c \<and> (0, 2) \<in> set (neighbours c))"
proof -
  have ne: "((0, 0) :: cell) \<noteq> (0, 2)" by simp
  have no: "\<not> bfs_reachable (0, 0) (0, 2) {(0, 1), (1, 0)}" by code_simp
  from C2_bfs_reachable_correct[of "(7, 7)" "{(7, 7)}" "(0, 2)"]
  have a: "bfs_reachable (7, 7) (7, 7) {(7, 7)}" by simp
  from C2_bfs_reachable_correct[of "(0, 0)" "{(0, 1), (1, 0)}" "(0, 2)"] ne no
  have "\<not> (\<exists>c. explored (0, 0) {(0, 1), (1, 0)} c \<and> (0, 2) \<in> set (neighbours c))" by simp
  with a show ?thesis by simp
qed

text \<open>
  C10.  For a goal other than the start: when the goal is a neighbour of some
  cell reached from the start avoiding the blocked set, the search answers
  \<open>True\<close>.  Nothing is asked of the goal itself, which may be blocked or out
  of bounds, since the goal test precedes the bounds and blocked tests.
\<close>

theorem C10_goal_test_before_filter:
  "start \<noteq> goal \<Longrightarrow> explored start blocked c \<Longrightarrow> goal \<in> set (neighbours c) \<Longrightarrow>
     bfs_reachable start goal blocked"
  using bfs_reachable_iff[of start goal blocked] by blast

theorem C10_goal_test_before_filter_witness:
  "(7, 8) \<in> {(7, 8) :: cell} \<and> bfs_reachable (7, 7) (7, 8) {(7, 8)} \<and>
   \<not> in_grid (-1, 0) \<and> bfs_reachable (0, 0) (-1, 0) {}"
proof -
  have a: "bfs_reachable (7, 7) (7, 8) {(7, 8)}"
    by (rule C10_goal_test_before_filter[of "(7, 7)" "(7, 8)" "{(7, 8)}" "(7, 7)"])
       (simp_all add: explored_start neighbours_def DIRS_def)
  have b: "bfs_reachable (0, 0) (-1, 0) {}"
    by (rule C10_goal_test_before_filter[of "(0, 0)" "(-1, 0)" "{}" "(0, 0)"])
       (simp_all add: explored_start neighbours_def DIRS_def)
  show ?thesis using a b by (simp add: in_grid_def)
qed

section \<open>The claims about placement\<close>

text \<open>
  C1.  Whatever the two shuffles and the requested count, the pair that
  \<open>place_items\<close> returns keeps the invariants of the data model: every piece
  is reached from the start cell (7, 7) by steps to neighbours that are in
  bounds and not pitfalls; no pitfall is a piece; the start cell is neither a
  pitfall nor a piece.  Pieces and pitfalls are cells of the grid.
\<close>

theorem C1_place_items_invariants:
  assumes "is_shuffle sh1" and "is_shuffle sh2"
    and "place_items sh1 sh2 n = (pieces, pitfalls)"
  shows "(\<forall>p \<in> set pieces. explored START_POS pitfalls p) \<and>
         pitfalls \<inter> set pieces = {} \<and>
         START_POS \<notin> pitfalls \<and> START_POS \<notin> set pieces \<and>
         set pieces \<subseteq> grid \<and> pitfalls \<subseteq> grid"
proof -
  note f = place_items_facts[OF assms]
  have "explored START_POS pitfalls p" if "p \<in> set pieces" for p
  proof -
    from f(3) that have "bfs_reachable START_POS p pitfalls" by (simp add: list_all_iff)
    moreover from f(1) that have "in_grid p" by (auto simp: in_grid_iff)
    moreover from f(2) that have "p \<notin> pitfalls" by auto
    ultimately show ?thesis by (rule bfs_reachable_explored)
  qed
  moreover have "pitfalls \<inter> set pieces = {}" using f(2) by auto
  moreover have "START_POS \<notin> pitfalls" using f(2) by auto
  moreover have "START_POS \<notin> set pieces" using f(1) by auto
  moreover have "set pieces \<subseteq> grid" using f(1) by auto
  moreover have "pitfalls \<subseteq> grid" using f(2) by auto
  ultimately show ?thesis by blast
qed

theorem C1_place_items_invariants_witness:
  "is_shuffle rev \<and>
   list_all (explored START_POS (snd (place_items rev rev 20))) (fst (place_items rev rev 20)) \<and>
   snd (place_items rev rev 20) \<inter> set (fst (place_items rev rev 20)) = {} \<and>
   START_POS \<notin> snd (place_items rev rev 20) \<and>
   START_POS \<notin> set (fst (place_items rev rev 20))"
  using C1_place_items_invariants[OF is_shuffle_rev is_shuffle_rev,
      of 20 "fst (place_items rev rev 20)" "snd (place_items rev rev 20)"]
  by (simp add: is_shuffle_rev list_all_iff)

text \<open>
  C6.  For a requested count \<open>n \<ge> 0\<close>, \<open>place_items\<close> returns exactly five
  pieces, all different, and at most \<open>n\<close> pitfalls; the pitfalls are never
  more than the 219 cells left beside the start and the pieces, so a larger
  request is met only in part.
\<close>

theorem C6_place_items_counts:
  assumes "is_shuffle sh1" and "is_shuffle sh2" and "0 \<le> n"
    and "place_items sh1 sh2 n = (pieces, pitfalls)"
  shows "length pieces = 5 \<and> distinct pieces \<and>
         finite pitfalls \<and> int (card pitfalls) \<le> n \<and> card pitfalls \<le> 219"
proof -
  note f = place_items_facts[OF assms(1,2,4)]
  have fin: "finite (grid - ({START_POS} \<union> set pieces))" using finite_grid by simp
  have "START_POS \<notin> set pieces" using f(1) by auto
  moreover have "card (set pieces) = 5" using f(4,5) by (simp add: distinct_card)
  ultimately have "card ({START_POS} \<union> set pieces) = 6" by simp
  moreover have "{START_POS} \<union> set pieces \<subseteq> grid" using f(1) START_in_grid by auto
  moreover have "card grid = 225"
    using distinct_card[OF distinct_all_cells] by (simp add: set_all_cells length_all_cells)
  ultimately have "card (grid - ({START_POS} \<union> set pieces)) = 219"
    using finite_grid by (simp add: card_Diff_subset)
  with card_mono[OF fin f(2)] have "card pitfalls \<le> 219" by simp
  with f(4,5,6) f(7)[OF assms(3)] show ?thesis by simp
qed

theorem C6_place_items_counts_witness:
  "is_shuffle rev \<and> (0::int) \<le> 300 \<and>
   length (fst (place_items rev rev 300)) = 5 \<and>
   int (card (snd (place_items rev rev 300))) \<le> 300 \<and>
   card (snd (place_items rev rev 300)) \<le> 219"
  using C6_place_items_counts[OF is_shuffle_rev is_shuffle_rev,
      of 300 "fst (place_items rev rev 300)" "snd (place_items rev rev 300)"]
  by (simp add: is_shuffle_rev)

section \<open>The claims about the state machine\<close>

text \<open>
  C3.  In the playing phase, an arrow key whose candidate cell is a pitfall
  (pitfalls being cells of the grid) does all of this within the one call of
  \<open>handle_keydown\<close>, wherever the player stood: the death count grows by
  exactly one, the candidate joins the revealed pitfalls, the player is back
  on the start cell, and the phase is \<open>flash\<close> with its timer at 75.
\<close>

theorem C3_pitfall_trigger:
  assumes "screen_state s = ''playing''"
    and "key_move k = Some (dx, dy, dir)"
    and "pitfall_positions s \<subseteq> grid"
    and "(player_x s + dx, player_y s + dy) \<in> pitfall_positions s"
  shows "death_count (handle_keydown r k s) = death_count s + 1 \<and>
         revealed_pitfalls (handle_keydown r k s) =
           insert (player_x s + dx, player_y s + dy) (revealed_pitfalls s) \<and>
         (player_x (handle_keydown r k s), player_y (handle_keydown r k s)) = START_POS \<and>
         screen_state (handle_keydown r k s) = ''flash'' \<and>
         flash_timer (handle_keydown r k s) = 75"
proof -
  from assms(3,4) have "in_grid (player_x s + dx, player_y s + dy)"
    by (auto simp: in_grid_iff)
  from pitfall_move[OF assms(1,2) this assms(4)] show ?thesis
    by (simp add: handle_pitfall_def FLASH_DURATION_def)
qed


theorem C3_pitfall_trigger_witness:
  "screen_state demo_state = ''playing'' \<and>
   (5, 5) \<in> pitfall_positions (demo_state\<lparr> player_x := 5, player_y := 6 \<rparr>) \<and>
   death_count (handle_keydown demo_rng K_UP (demo_state\<lparr> player_x := 5, player_y := 6 \<rparr>)) = 2 \<and>
   revealed_pitfalls (handle_keydown demo_rng K_UP (demo_state\<lparr> player_x := 5, player_y := 6 \<rparr>))
     = {(5, 5), (8, 7)} \<and>
   (player_x (handle_keydown demo_rng K_UP (demo_state\<lparr> player_x := 5, player_y := 6 \<rparr>)),
    player_y (handle_keydown demo_rng K_UP (demo_state\<lparr> player_x := 5, player_y := 6 \<rparr>))) = START_POS \<and>
   screen_state (handle_keydown demo_rng K_UP (demo_state\<lparr> player_x := 5, player_y := 6 \<rparr>)) = ''flash'' \<and>
   flash_timer (handle_keydown demo_rng K_UP (demo_state\<lparr> player_x := 5, player_y := 6 \<rparr>)) = 75"
  using C3_pitfall_trigger[of "demo_state\<lparr> player_x := 5, player_y := 6 \<rparr>" K_UP 0 "-1" 0 demo_rng]
  by (simp add: demo_state_def grid_def COLS_def ROWS_def)

text \<open>
  C4, as stated, fails: stepping onto a pitfall that is already revealed is
  no no-op.  In the example state the pit at (8, 7) is revealed and lies
  right of the player; the move ends in the phase \<open>flash\<close> with one more
  death and the player on the start cell (7, 7), not on (8, 7).
\<close>

theorem C4_counterexample:
  "screen_state demo_state = ''playing'' \<and>
   (8, 7) \<in> pitfall_positions demo_state \<and> (8, 7) \<in> revealed_pitfalls demo_state \<and>
   (player_x demo_state + 1, player_y demo_state) = (8, 7) \<and>
   screen_state (handle_keydown demo_rng K_RIGHT demo_state) = ''flash'' \<and>
   death_count (handle_keydown demo_rng K_RIGHT demo_state) = death_count demo_state + 1 \<and>
   (player_x (handle_keydown demo_rng K_RIGHT demo_state),
    player_y (handle_keydown demo_rng K_RIGHT demo_state)) = (7, 7)"
  by (simp add: demo_state_def handle_keydown_def handle_pitfall_def Let_def
        COLS_def ROWS_def START_POS_def)

text \<open>
  C4, amended.  \<open>handle_keydown\<close> tests only \<open>pitfall_positions\<close>, so a
  revealed pitfall triggers like any other: the death count grows by one, the
  player returns to the start cell, the phase is \<open>flash\<close> with its timer at
  75; the set of revealed pitfalls is unchanged.
\<close>

theorem C4_revealed_pitfall_retriggers:
  assumes "screen_state s = ''playing''"
    and "key_move k = Some (dx, dy, dir)"
    and "pitfall_positions s \<subseteq> grid"
    and "(player_x s + dx, player_y s + dy) \<in> pitfall_positions s"
    and "(player_x s + dx, player_y s + dy) \<in> revealed_pitfalls s"
  shows "death_count (handle_keydown r k s) = death_count s + 1 \<and>
         revealed_pitfalls (handle_keydown r k s) = revealed_pitfalls s \<and>
         (player_x (handle_keydown r k s), player_y (handle_keydown r k s)) = START_POS \<and>
         screen_state (handle_keydown r k s) = ''flash'' \<and>
         flash_timer (handle_keydown r k s) = 75"
proof -
  from assms(3,4) have "in_grid (player_x s + dx, player_y s + dy)"
    by (auto simp: in_grid_iff)
  from pitfall_move[OF assms(1,2) this assms(4)] assms(5) show ?thesis
    by (simp add: handle_pitfall_def FLASH_DURATION_def insert_absorb)
qed

theorem C4_revealed_pitfall_retriggers_witness:
  "(8, 7) \<in> revealed_pitfalls demo_state \<and>
   death_count (handle_keydown demo_rng K_RIGHT demo_state) = 2 \<and>
   revealed_pitfalls (handle_keydown demo_rng K_RIGHT demo_state) = {(8, 7)} \<and>
   screen_state (handle_keydown demo_rng K_RIGHT demo_state) = ''flash'' \<and>
   flash_timer (handle_keydown demo_rng K_RIGHT demo_state) = 75"
  using C4_revealed_pitfall_retriggers[of demo_state K_RIGHT 1 0 3 demo_rng]
  by (simp add: demo_state_def grid_def COLS_def ROWS_def)

text \<open>
  C5.  In the playing phase, an arrow key whose candidate cell is in bounds,
  no pitfall and a piece not yet collected, when four pieces are collected
  already, ends in the phase \<open>win\<close> within that call (the phase \<open>piece\<close> is
  overwritten): the collected pieces are then all the piece positions, the
  rotation angle is 0 and the burst holds 40 stars, every one at the pixel
  centre of the candidate's tile.
\<close>

theorem C5_fifth_piece_wins:
  assumes "screen_state s = ''playing''"
    and "key_move k = Some (dx, dy, dir)"
    and "in_grid (player_x s + dx, player_y s + dy)"
    and "(player_x s + dx, player_y s + dy) \<notin> pitfall_positions s"
    and "(player_x s + dx, player_y s + dy) \<in> set (piece_positions s)"
    and "(player_x s + dx, player_y s + dy) \<notin> collected_pieces s"
    and "card (collected_pieces s) = 4"
    and "collected_pieces s \<subseteq> set (piece_positions s)"
    and "distinct (piece_positions s)" and "length (piece_positions s) = 5"
  shows "screen_state (handle_keydown r k s) = ''win'' \<and>
         collected_pieces (handle_keydown r k s) = set (piece_positions (handle_keydown r k s)) \<and>
         collected_pieces (handle_keydown r k s)
           = insert (player_x s + dx, player_y s + dy) (collected_pieces s) \<and>
         win_angle (handle_keydown r k s) = 0 \<and>
         length (win_stars (handle_keydown r k s)) = 40 \<and>
         list_all (\<lambda>st. star_x st = of_int ((player_x s + dx) * TILE + TILE div 2) \<and>
                         star_y st = of_int (HUD_H + (player_y s + dy) * TILE + TILE div 2))
                  (win_stars (handle_keydown r k s))"
proof -
  let ?pos = "(player_x s + dx, player_y s + dy)"
  have fin: "finite (collected_pieces s)"
    using assms(7) by (metis card.infinite zero_neq_numeral)
  have c5: "card (insert ?pos (collected_pieces s)) = 5"
    using fin assms(6,7) by simp
  have "card (set (piece_positions s)) = 5"
    using assms(9,10) by (simp add: distinct_card)
  moreover have "insert ?pos (collected_pieces s) \<subseteq> set (piece_positions s)"
    using assms(5,8) by simp
  ultimately have eq: "insert ?pos (collected_pieces s) = set (piece_positions s)"
    using c5 by (intro card_subset_eq) simp_all
  have hk: "handle_keydown r k s =
      s\<lparr> player_dir := dir, player_x := player_x s + dx, player_y := player_y s + dy,
         visited := insert ?pos (visited s),
         collected_pieces := insert ?pos (collected_pieces s),
         piece_origin := ?pos, piece_timer := PIECE_DURATION,
         win_stars := make_stars (star_draws r) ((player_x s + dx) * TILE + TILE div 2)
                        (HUD_H + (player_y s + dy) * TILE + TILE div 2) 40,
         win_angle := 0, screen_state := ''win'' \<rparr>"
    using assms(1-6) c5 by (simp add: handle_keydown_def in_grid_def Let_def NUM_PIECES_def)
  show ?thesis
    unfolding hk using eq by (simp add: make_stars_def list_all_iff)
qed

theorem C5_fifth_piece_wins_witness:
  "screen_state (handle_keydown demo_rng K_UP demo_state) = ''win'' \<and>
   collected_pieces (handle_keydown demo_rng K_UP demo_state)
     = {(7, 6), (0, 0), (3, 9), (12, 2), (14, 14)} \<and>
   win_angle (handle_keydown demo_rng K_UP demo_state) = 0 \<and>
   length (win_stars (handle_keydown demo_rng K_UP demo_state)) = 40 \<and>
   list_all (\<lambda>st. star_x st = 300 \<and> star_y st = 310)
     (win_stars (handle_keydown demo_rng K_UP demo_state))"
proof -
  have h1: "screen_state demo_state = ''playing''" by (simp add: demo_state_def)
  have h2: "key_move K_UP = Some (0, -1, 0)" by simp
  have h3: "in_grid (player_x demo_state + 0, player_y demo_state + -1)"
    by (simp add: demo_state_def in_grid_def COLS_def ROWS_def)
  have h4: "(player_x demo_state + 0, player_y demo_state + -1) \<notin> pitfall_positions demo_state"
    by (simp add: demo_state_def)
  have h5: "(player_x demo_state + 0, player_y demo_state + -1) \<in> set (piece_positions demo_state)"
    by (simp add: demo_state_def)
  have h6: "(player_x demo_state + 0, player_y demo_state + -1) \<notin> collected_pieces demo_state"
    by (simp add: demo_state_def)
  have h7: "card (collected_pieces demo_state) = 4" by (simp add: demo_state_def)
  have h8: "collected_pieces demo_state \<subseteq> set (piece_positions demo_state)"
    by (simp add: demo_state_def)
  have h9: "distinct (piece_positions demo_state)" by (simp add: demo_state_def)
  have h10: "length (piece_positions demo_state) = 5" by (simp add: demo_state_def)
  have p: "player_x demo_state = 7" "player_y demo_state = 7"
    "collected_pieces demo_state = {(0, 0), (3, 9), (12, 2), (14, 14)}"
    by (simp_all add: demo_state_def)
  from C5_fifth_piece_wins[OF h1 h2 h3 h4 h5 h6 h7 h8 h9 h10, of demo_rng]
  show ?thesis unfolding p by (auto simp: TILE_def HUD_H_def)
qed

text \<open>
  C7.  In the playing phase, an arrow key whose candidate cell is out of
  bounds changes nothing but the facing, which becomes the direction of the
  key: position, visited cells, collected pieces, revealed pitfalls, death
  count and phase stay.  A second such key does the same again, and the
  facing is that of the second key.
\<close>

theorem C7_wall_move_noop:
  assumes "screen_state s = ''playing''"
    and "key_move k = Some (dx, dy, dir)"
    and "\<not> in_grid (player_x s + dx, player_y s + dy)"
    and "key_move k' = Some (dx', dy', dir')"
    and "\<not> in_grid (player_x s + dx', player_y s + dy')"
  shows "handle_keydown r k s = s\<lparr> player_dir := dir \<rparr> \<and>
         handle_keydown r' k' (handle_keydown r k s) = s\<lparr> player_dir := dir' \<rparr>"
proof -
  have one: "handle_keydown q j t = t\<lparr> player_dir := e \<rparr>"
    if "screen_state t = ''playing''" "key_move j = Some (a, b, e)"
       "\<not> in_grid (player_x t + a, player_y t + b)" for q j t a b e
    using that by (auto simp: handle_keydown_def in_grid_def Let_def)
  have first: "handle_keydown r k s = s\<lparr> player_dir := dir \<rparr>"
    by (rule one[OF assms(1,2,3)])
  have "handle_keydown r' k' (s\<lparr> player_dir := dir \<rparr>) = s\<lparr> player_dir := dir \<rparr>\<lparr> player_dir := dir' \<rparr>"
    by (rule one[of _ _ dx' dy']) (use assms in simp_all)
  with first show ?thesis by simp
qed

theorem C7_wall_move_noop_witness:
  "\<not> in_grid (player_x (demo_state\<lparr> player_x := 0, player_y := 0 \<rparr>) + 0,
               player_y (demo_state\<lparr> player_x := 0, player_y := 0 \<rparr>) + -1) \<and>
   handle_keydown demo_rng K_UP (demo_state\<lparr> player_x := 0, player_y := 0 \<rparr>)
     = demo_state\<lparr> player_x := 0, player_y := 0, player_dir := 0 \<rparr> \<and>
   handle_keydown demo_rng K_LEFT
     (handle_keydown demo_rng K_UP (demo_state\<lparr> player_x := 0, player_y := 0 \<rparr>))
     = demo_state\<lparr> player_x := 0, player_y := 0, player_dir := 2 \<rparr>"
proof -
  let ?s = "demo_state\<lparr> player_x := 0, player_y := 0 \<rparr>"
  have h1: "screen_state ?s = ''playing''" by (simp add: demo_state_def)
  have h2: "key_move K_UP = Some (0, -1, 0)" by simp
  have h3: "\<not> in_grid (player_x ?s + 0, player_y ?s + -1)" by (simp add: in_grid_def)
  have h4: "key_move K_LEFT = Some (-1, 0, 2)" by simp
  have h5: "\<not> in_grid (player_x ?s + -1, player_y ?s + 0)" by (simp add: in_grid_def)
  from C7_wall_move_noop[OF h1 h2 h3 h4 h5, of demo_rng demo_rng] h3
  show ?thesis by blast
qed

text \<open>
  C8.  \<open>new_game\<close> returns a state with the player on the start cell,
  \<open>visited\<close> holding just the start cell, nothing collected, nothing
  revealed, death count 0, phase \<open>playing\<close> and the map that \<open>place_items\<close>
  makes for the requested count.  \<open>reset_game\<close> on any state gives the state
  that \<open>new_game\<close> gives for the count stored in that state.
\<close>

theorem C8_new_game_and_reset:
  "(player_x (new_game r n), player_y (new_game r n)) = START_POS \<and>
   visited (new_game r n) = {START_POS} \<and>
   collected_pieces (new_game r n) = {} \<and>
   revealed_pitfalls (new_game r n) = {} \<and>
   death_count (new_game r n) = 0 \<and>
   screen_state (new_game r n) = ''playing'' \<and>
   num_pitfalls (new_game r n) = n \<and>
   (piece_positions (new_game r n), pitfall_positions (new_game r n))
      = place_items (shuffle_pool r) (shuffle_candidates r) n \<and>
   reset_game r s = new_game r (num_pitfalls s)"
  by (cases s) (simp add: new_game_def reset_game_def split: prod.splits)

theorem C8_new_game_and_reset_witness:
  "death_count (new_game demo_rng 20) = 0 \<and>
   screen_state (new_game demo_rng 20) = ''playing'' \<and>
   reset_game demo_rng demo_state = new_game demo_rng 2 \<and>
   death_count (reset_game demo_rng demo_state) = 0 \<and>
   visited (reset_game demo_rng demo_state) = {START_POS}"
  using C8_new_game_and_reset[of demo_rng 20 demo_state] C8_new_game_and_reset[of demo_rng 2 demo_state]
  by (simp add: demo_state_def)

text \<open>
  C9.  \<open>visited\<close> only grows: \<open>handle_pitfall\<close> removes no cell, no event
  other than a reset removes a cell, and so no session does.  Every event
  keeps the start cell and the player's cell in \<open>visited\<close>, and they are in
  it after every run of events from a new game.
\<close>

theorem C9_visited_grows:
  "visited s \<subseteq> visited (handle_pitfall s) \<and>
   (\<not> is_reset ev s \<longrightarrow> visited s \<subseteq> visited (step ev s)) \<and>
   (session evs s \<longrightarrow> visited s \<subseteq> visited (run evs s)) \<and>
   (visited_ok s \<longrightarrow> visited_ok (step ev s)) \<and>
   visited_ok (run evs (new_game r n))"
  using step_visited[of ev s] run_visited[of evs s] step_visited_ok[of s ev]
    run_visited_ok[OF new_game_visited_ok, of evs r n]
  by (auto simp: handle_pitfall_visited)

theorem C9_visited_grows_witness:
  "visited demo_state \<subseteq> visited (handle_pitfall demo_state) \<and>
   visited demo_state \<subseteq> visited (step (KeyDown demo_rng K_UP) demo_state) \<and>
   visited demo_state \<subseteq>
     visited (run [KeyDown demo_rng K_UP, Frame demo_rng, KeyDown demo_rng K_LEFT] demo_state) \<and>
   visited_ok (step (KeyDown demo_rng K_UP) demo_state) \<and>
   visited_ok (run [KeyDown demo_rng K_UP, Frame demo_rng, KeyDown demo_rng K_LEFT]
                 (new_game demo_rng 20))"
proof -
  let ?evs = "[KeyDown demo_rng K_UP, Frame demo_rng, KeyDown demo_rng K_LEFT]"
  have a: "\<not> is_reset (KeyDown demo_rng K_UP) demo_state" by simp
  have b: "session ?evs demo_state" by simp
  have c: "visited_ok demo_state" by (simp add: visited_ok_def demo_state_def START_POS_def)
  from C9_visited_grows[of demo_state "KeyDown demo_rng K_UP" ?evs demo_rng 20] a b c
  show ?thesis by blast
qed

end
